theory Spec2Isabelle
  imports Main "HOL-Library.AList" "HOL-Library.Sublist"
begin

section \<open>Values loaded from the chat export\<close>

text \<open>
  \<^verbatim>\<open>json.load\<close> yields dictionaries, lists, strings, integers, booleans and
  \<^verbatim>\<open>None\<close>. A dictionary is kept as an association list in insertion order;
  lookup finds the first binding of a key and the loader never produces a key twice.
  A Python \<^verbatim>\<open>str\<close> is kept as its UTF-8 bytes, so a substring test on bytes
  is the substring test on code points. Non-integer numbers are not part of the model.
\<close>

datatype json =
    JNull
  | JBool bool
  | JInt int
  | JStr string
  | JList "json list"
  | JObj "(string \<times> json) list"

datatype py_error = KeyError string | TypeError | AttributeError

text \<open>The collaborators the class imports: hazm, arabic_reshaper, bidi, \<^verbatim>\<open>str.strip\<close>
  and the data directory of the package.\<close>

record libs =
  normalizer_normalize :: "string \<Rightarrow> string"
  hazm_sent_tokenize :: "string \<Rightarrow> string list"
  hazm_word_tokenize :: "string \<Rightarrow> string list"
  arabic_reshape :: "string \<Rightarrow> string"
  bidi_get_display :: "string \<Rightarrow> string"
  str_strip :: "string \<Rightarrow> string"
  DATA_DIR :: string

subsection \<open>Python primitives on loaded values\<close>

text \<open>\<^verbatim>\<open>obj[key]\<close> with a string key: only a dictionary accepts it.\<close>

fun py_getitem :: "json \<Rightarrow> string \<Rightarrow> py_error + json" where
  "py_getitem (JObj kvs) k = (case map_of kvs k of None \<Rightarrow> Inl (KeyError k) | Some v \<Rightarrow> Inr v)"
| "py_getitem _ k = Inl TypeError"

text \<open>\<^verbatim>\<open>for x in obj\<close>: a list gives its elements, a dictionary its keys, a string its
  characters; nothing else is iterable. The characters of a string come byte by byte
  here: the methods only ever join them again or reject each of them.\<close>

fun py_iter :: "json \<Rightarrow> py_error + json list" where
  "py_iter (JList xs) = Inr xs"
| "py_iter (JObj kvs) = Inr (map (\<lambda>kv. JStr (fst kv)) kvs)"
| "py_iter (JStr s) = Inr (map (\<lambda>c. JStr [c]) s)"
| "py_iter _ = Inl TypeError"

text \<open>Truth value of \<^verbatim>\<open>not x\<close>.\<close>

fun py_truthy :: "json \<Rightarrow> bool" where
  "py_truthy JNull = False"
| "py_truthy (JBool b) = b"
| "py_truthy (JInt n) = (n \<noteq> 0)"
| "py_truthy (JStr s) = (s \<noteq> [])"
| "py_truthy (JList xs) = (xs \<noteq> [])"
| "py_truthy (JObj kvs) = (kvs \<noteq> [])"

text \<open>Dictionary keys: lists and dictionaries are unhashable, and \<^verbatim>\<open>True == 1\<close>,
  \<^verbatim>\<open>False == 0\<close> with equal hashes.\<close>

fun py_hashable :: "json \<Rightarrow> bool" where
  "py_hashable (JList xs) = False"
| "py_hashable (JObj kvs) = False"
| "py_hashable _ = True"

fun norm_key :: "json \<Rightarrow> json" where
  "norm_key (JBool b) = JInt (if b then 1 else 0)"
| "norm_key v = v"

text \<open>\<^verbatim>\<open>' '.join(tokens)\<close>\<close>

fun join_sp :: "string list \<Rightarrow> string" where
  "join_sp [] = []"
| "join_sp [t] = t"
| "join_sp (t # ts) = t @ '' '' @ join_sp ts"

text \<open>\<^verbatim>\<open>('?' not in sentence) and ('\<dots>' not in sentence)\<close> negated; the second
  character is the Arabic question mark U+061F, bytes D8 9F.\<close>

definition arabic_qmark :: string where
  "arabic_qmark = [CHR 0xD8, CHR 0x9F]"

definition has_qmark :: "string \<Rightarrow> bool" where
  "has_qmark sentence = (CHR ''?'' \<in> set sentence \<or> sublist arabic_qmark sentence)"

section \<open>ChatStatistics\<close>

record chat_statistics =
  chat_data :: json
  stop_words :: "string set"

text \<open>\<^verbatim>\<open>__init__\<close> after the two files are read: the loaded document and the lines of
  stopwords.txt.\<close>

definition init :: "libs \<Rightarrow> json \<Rightarrow> string list \<Rightarrow> chat_statistics" where
  "init L doc stop_lines =
     \<lparr>chat_data = doc,
      stop_words = set (map (normalizer_normalize L) (map (str_strip L) stop_lines))\<rparr>"

subsection \<open>rebuild_msg\<close>

text \<open>One pass of the loop body of \<^verbatim>\<open>rebuild_msg\<close>. An element that is not a string
  is asked \<^verbatim>\<open>'text' in sub_msg\<close>: a dictionary looks among its keys, a list among its
  elements (and then fails at \<^verbatim>\<open>sub_msg['text']\<close>), anything else is not a
  container. Appending a non-string to \<^verbatim>\<open>msg_text\<close> fails.\<close>

fun rebuild_step :: "json \<Rightarrow> string \<Rightarrow> py_error + string" where
  "rebuild_step (JStr s) msg_text = Inr (msg_text @ s)"
| "rebuild_step (JObj kvs) msg_text =
     (case map_of kvs ''text'' of
        None \<Rightarrow> Inr msg_text
      | Some (JStr s) \<Rightarrow> Inr (msg_text @ s)
      | Some _ \<Rightarrow> Inl TypeError)"
| "rebuild_step (JList xs) msg_text =
     (if JStr ''text'' \<in> set xs then Inl TypeError else Inr msg_text)"
| "rebuild_step _ msg_text = Inl TypeError"

fun rebuild_loop :: "json list \<Rightarrow> string \<Rightarrow> py_error + string" where
  "rebuild_loop [] msg_text = Inr msg_text"
| "rebuild_loop (sub_msg # rest) msg_text =
     (case rebuild_step sub_msg msg_text of
        Inl e \<Rightarrow> Inl e
      | Inr msg_text' \<Rightarrow> rebuild_loop rest msg_text')"

definition rebuild_msg :: "json \<Rightarrow> py_error + string" where
  "rebuild_msg sub_messages =
     (case py_iter sub_messages of
        Inl e \<Rightarrow> Inl e
      | Inr subs \<Rightarrow> rebuild_loop subs [])"

subsection \<open>msg_has_question\<close>

text \<open>The opening of \<^verbatim>\<open>msg_has_question\<close> and of the first loop of \<^verbatim>\<open>get_top_users\<close>:
  a text that is not a string is replaced, in the message itself, by what
  \<^verbatim>\<open>rebuild_msg\<close> returns. The result is the text and the message as it is afterwards.\<close>

fun rebuild_text :: "json \<Rightarrow> (py_error + string) \<times> json" where
  "rebuild_text (JObj kvs) =
     (case map_of kvs ''text'' of
        None \<Rightarrow> (Inl (KeyError ''text''), JObj kvs)
      | Some (JStr s) \<Rightarrow> (Inr s, JObj kvs)
      | Some v \<Rightarrow>
          (case rebuild_msg v of
             Inl e \<Rightarrow> (Inl e, JObj kvs)
           | Inr t \<Rightarrow> (Inr t, JObj (AList.update ''text'' (JStr t) kvs))))"
| "rebuild_text msg = (Inl TypeError, msg)"

text \<open>The sentence loop of \<^verbatim>\<open>msg_has_question\<close>: a sentence without a question mark
  goes to the next one, and so does any other, the body ending there; after the loop the
  method returns \<^verbatim>\<open>True\<close>.\<close>

fun question_scan :: "string list \<Rightarrow> bool" where
  "question_scan [] = True"
| "question_scan (sentence # rest) =
     (if \<not> has_qmark sentence then question_scan rest else question_scan rest)"

definition msg_has_question :: "libs \<Rightarrow> json \<Rightarrow> (py_error + bool) \<times> json" where
  "msg_has_question L msg =
     (case rebuild_text msg of
        (Inl e, msg') \<Rightarrow> (Inl e, msg')
      | (Inr t, msg') \<Rightarrow> (Inr (question_scan (hazm_sent_tokenize L t)), msg'))"

subsection \<open>get_top_users\<close>

type_synonym question_index = "json \<rightharpoonup> bool"

text \<open>The sentence loop of \<^verbatim>\<open>get_top_users\<close>: the first sentence with a question mark
  stores \<^verbatim>\<open>True\<close> under the message's id and leaves the loop.\<close>

fun sentence_loop :: "string list \<Rightarrow> json \<Rightarrow> question_index \<Rightarrow> py_error + question_index" where
  "sentence_loop [] msg is_question = Inr is_question"
| "sentence_loop (sentence # rest) msg is_question =
     (if \<not> has_qmark sentence then sentence_loop rest msg is_question
      else (case py_getitem msg ''id'' of
              Inl e \<Rightarrow> Inl e
            | Inr i \<Rightarrow> if py_hashable i then Inr (is_question(norm_key i \<mapsto> True))
                       else Inl TypeError))"

definition index_step :: "libs \<Rightarrow> json \<Rightarrow> question_index \<Rightarrow> (py_error + question_index) \<times> json" where
  "index_step L msg is_question =
     (case rebuild_text msg of
        (Inl e, msg') \<Rightarrow> (Inl e, msg')
      | (Inr t, msg') \<Rightarrow> (sentence_loop (hazm_sent_tokenize L t) msg' is_question, msg'))"

text \<open>The first loop over the messages. An exception leaves the messages already visited
  rewritten and the rest untouched.\<close>

fun index_loop :: "libs \<Rightarrow> json list \<Rightarrow> question_index \<Rightarrow> (py_error + question_index) \<times> json list" where
  "index_loop L [] is_question = (Inr is_question, [])"
| "index_loop L (msg # rest) is_question =
     (case index_step L msg is_question of
        (Inl e, msg') \<Rightarrow> (Inl e, msg' # rest)
      | (Inr is_question', msg') \<Rightarrow>
          (case index_loop L rest is_question' of
             (r, rest') \<Rightarrow> (r, msg' # rest')))"

text \<open>The body of the second loop. \<^verbatim>\<open>is_question\<close> is a \<^verbatim>\<open>defaultdict(bool)\<close>:
  reading an absent key stores \<^verbatim>\<open>False\<close> under it.\<close>

fun vote_step :: "json \<Rightarrow> question_index \<Rightarrow> json list \<Rightarrow> py_error + (question_index \<times> json list)" where
  "vote_step (JObj kvs) is_question users =
     (case map_of kvs ''reply_to_message_id'' of
        None \<Rightarrow> Inr (is_question, users)
      | Some r \<Rightarrow>
          if \<not> py_truthy r then Inr (is_question, users)
          else if \<not> py_hashable r then Inl TypeError
          else (case is_question (norm_key r) of
                  None \<Rightarrow> Inr (is_question(norm_key r \<mapsto> False), users)
                | Some False \<Rightarrow> Inr (is_question, users)
                | Some True \<Rightarrow>
                    (case map_of kvs ''from'' of
                       None \<Rightarrow> Inl (KeyError ''from'')
                     | Some u \<Rightarrow> Inr (is_question, users @ [u]))))"
| "vote_step msg is_question users = Inl AttributeError"

fun vote_loop :: "json list \<Rightarrow> question_index \<Rightarrow> json list \<Rightarrow> py_error + json list" where
  "vote_loop [] is_question users = Inr users"
| "vote_loop (msg # rest) is_question users =
     (case vote_step msg is_question users of
        Inl e \<Rightarrow> Inl e
      | Inr (is_question', users') \<Rightarrow> vote_loop rest is_question' users')"

text \<open>\<^verbatim>\<open>Counter(users)\<close>: one count per distinct element, in the order first met.\<close>

fun counter_add :: "json \<Rightarrow> (json \<times> int) list \<Rightarrow> (json \<times> int) list" where
  "counter_add u [] = [(u, 1)]"
| "counter_add u ((k, c) # rest) =
     (if norm_key k = norm_key u then (k, c + 1) # rest else (k, c) # counter_add u rest)"

fun counter :: "json list \<Rightarrow> (json \<times> int) list \<Rightarrow> py_error + (json \<times> int) list" where
  "counter [] counts = Inr counts"
| "counter (u # users) counts =
     (if py_hashable u then counter users (counter_add u counts) else Inl TypeError)"

text \<open>\<^verbatim>\<open>most_common(n)\<close>: the n largest counts, largest first, equal counts in the order
  first met; nothing for a negative n.\<close>

definition most_common :: "int \<Rightarrow> (json \<times> int) list \<Rightarrow> (json \<times> int) list" where
  "most_common n counts = take (nat n) (sort_key (\<lambda>kc. - snd kc) counts)"

text \<open>What the messages of the export are after the first loop: a list holds the
  rewritten messages, the keys of a dictionary and the characters of a string are
  temporaries.\<close>

fun store_messages :: "json \<Rightarrow> json \<Rightarrow> json list \<Rightarrow> json" where
  "store_messages (JObj kvs) (JList old) msgs = JObj (AList.update ''messages'' (JList msgs) kvs)"
| "store_messages chat v msgs = chat"

definition get_top_users ::
  "libs \<Rightarrow> chat_statistics \<Rightarrow> int \<Rightarrow> (py_error + (json \<times> int) list) \<times> chat_statistics" where
  "get_top_users L self top_n =
     (case py_getitem (chat_data self) ''messages'' of
        Inl e \<Rightarrow> (Inl e, self)
      | Inr v \<Rightarrow>
          (case py_iter v of
             Inl e \<Rightarrow> (Inl e, self)
           | Inr msgs \<Rightarrow>
               (case index_loop L msgs Map.empty of
                  (Inl e, msgs') \<Rightarrow>
                    (Inl e, self\<lparr>chat_data := store_messages (chat_data self) v msgs'\<rparr>)
                | (Inr is_question, msgs') \<Rightarrow>
                    (case vote_loop msgs' is_question [] of
                       Inl e \<Rightarrow> Inl e
                     | Inr users \<Rightarrow>
                         (case counter users [] of
                            Inl e \<Rightarrow> Inl e
                          | Inr counts \<Rightarrow> Inr (most_common top_n counts)),
                     self\<lparr>chat_data := store_messages (chat_data self) v msgs'\<rparr>))))"

subsection \<open>generate_word_cloud\<close>

text \<open>What one message with a string text adds to \<^verbatim>\<open>text_content\<close>.\<close>

definition msg_words :: "libs \<Rightarrow> string set \<Rightarrow> string \<Rightarrow> string" where
  "msg_words L stops s =
     '' '' @ join_sp (filter (\<lambda>item. item \<notin> stops) (hazm_word_tokenize L s))"

fun text_loop :: "libs \<Rightarrow> string set \<Rightarrow> json list \<Rightarrow> string \<Rightarrow> py_error + string" where
  "text_loop L stops [] text_content = Inr text_content"
| "text_loop L stops (msg # rest) text_content =
     (case py_getitem msg ''text'' of
        Inl e \<Rightarrow> Inl e
      | Inr (JStr s) \<Rightarrow> text_loop L stops rest (text_content @ msg_words L stops s)
      | Inr _ \<Rightarrow> text_loop L stops rest text_content)"

text \<open>The three rewritings of the collected text before it is rendered.\<close>

definition display_text :: "libs \<Rightarrow> string \<Rightarrow> string" where
  "display_text L text_content =
     bidi_get_display L (arabic_reshape L (normalizer_normalize L text_content))"

text \<open>The call of the renderer: the text, the options of \<^verbatim>\<open>WordCloud\<close> and the file
  the image goes to. A path is a directory and a name below it.\<close>

record render_call =
  rc_text :: string
  rc_font_path :: "string \<times> string"
  rc_background_color :: string
  rc_max_font_size :: int
  rc_width :: int
  rc_height :: int
  rc_to_file :: "string \<times> string"

definition generate_word_cloud ::
  "libs \<Rightarrow> chat_statistics \<Rightarrow> string \<Rightarrow> int \<Rightarrow> int \<Rightarrow> int \<Rightarrow> py_error + render_call" where
  "generate_word_cloud L self output_dir width height max_font_size =
     (case py_getitem (chat_data self) ''messages'' of
        Inl e \<Rightarrow> Inl e
      | Inr v \<Rightarrow>
          (case py_iter v of
             Inl e \<Rightarrow> Inl e
           | Inr msgs \<Rightarrow>
               (case text_loop L (stop_words self) msgs [] of
                  Inl e \<Rightarrow> Inl e
                | Inr text_content \<Rightarrow>
                    Inr \<lparr>rc_text = display_text L text_content,
                         rc_font_path = (DATA_DIR L, ''BHoma.ttf''),
                         rc_background_color = ''white'',
                         rc_max_font_size = 60,
                         rc_width = 450,
                         rc_height = 250,
                         rc_to_file = (output_dir, ''wordcloud.png'')\<rparr>)))"

section \<open>The shapes of the data model\<close>

text \<open>The elements \<^verbatim>\<open>rebuild_msg\<close> accepts: a string; a record whose \<^verbatim>\<open>text\<close>, when
  it has one, is a string; a list that does not hold the string \<^verbatim>\<open>text\<close>. What an
  accepted element adds to the result is its own string, the string under \<^verbatim>\<open>text\<close>,
  or nothing.\<close>

fun sub_msg_ok :: "json \<Rightarrow> bool" where
  "sub_msg_ok (JStr s) = True"
| "sub_msg_ok (JObj kvs) =
     (case map_of kvs ''text'' of None \<Rightarrow> True | Some (JStr s) \<Rightarrow> True | Some _ \<Rightarrow> False)"
| "sub_msg_ok (JList xs) = (JStr ''text'' \<notin> set xs)"
| "sub_msg_ok _ = False"

fun sub_msg_text :: "json \<Rightarrow> string" where
  "sub_msg_text (JStr s) = s"
| "sub_msg_text (JObj kvs) = (case map_of kvs ''text'' of Some (JStr s) \<Rightarrow> s | _ \<Rightarrow> [])"
| "sub_msg_text _ = []"

text \<open>The text of a message: a string, or a sequence of accepted elements.\<close>

fun is_text :: "json \<Rightarrow> bool" where
  "is_text (JStr s) = True"
| "is_text (JList subs) = list_all sub_msg_ok subs"
| "is_text _ = False"

fun text_str :: "json \<Rightarrow> string" where
  "text_str (JStr s) = s"
| "text_str (JList subs) = concat (map sub_msg_text subs)"
| "text_str _ = []"

text \<open>A message record of the export: an integer \<^verbatim>\<open>id\<close>, a string \<^verbatim>\<open>from\<close>, an
  integer \<^verbatim>\<open>reply_to_message_id\<close> or none, and a text.\<close>

fun is_message :: "json \<Rightarrow> bool" where
  "is_message (JObj kvs) =
     ((case map_of kvs ''id'' of Some (JInt i) \<Rightarrow> True | _ \<Rightarrow> False)
      \<and> (case map_of kvs ''from'' of Some (JStr u) \<Rightarrow> True | _ \<Rightarrow> False)
      \<and> (case map_of kvs ''reply_to_message_id'' of
            None \<Rightarrow> True | Some (JInt r) \<Rightarrow> True | _ \<Rightarrow> False)
      \<and> (case map_of kvs ''text'' of Some v \<Rightarrow> is_text v | None \<Rightarrow> False))"
| "is_message _ = False"

text \<open>What each loop needs of a message to pass it without an exception. The first loop:
  a text and an \<^verbatim>\<open>id\<close> that can be a dictionary key. The second loop: a
  \<^verbatim>\<open>reply_to_message_id\<close> that can be a key, when there is one; and, for the counting
  after it, a \<^verbatim>\<open>from\<close> that can be a key. The loop of \<^verbatim>\<open>generate_word_cloud\<close>:
  a \<^verbatim>\<open>text\<close> of any kind.\<close>

definition indexable :: "json \<Rightarrow> bool" where
  "indexable msg =
     (case msg of
        JObj kvs \<Rightarrow>
          (case map_of kvs ''text'' of Some v \<Rightarrow> is_text v | None \<Rightarrow> False)
          \<and> (case map_of kvs ''id'' of Some i \<Rightarrow> py_hashable i | None \<Rightarrow> False)
      | _ \<Rightarrow> False)"

definition replyable :: "json \<Rightarrow> bool" where
  "replyable msg =
     (case msg of
        JObj kvs \<Rightarrow>
          (case map_of kvs ''reply_to_message_id'' of None \<Rightarrow> True | Some r \<Rightarrow> py_hashable r)
      | _ \<Rightarrow> False)"

definition votable :: "json \<Rightarrow> bool" where
  "votable msg =
     (replyable msg
      \<and> (case py_getitem msg ''from'' of Inr u \<Rightarrow> py_hashable u | Inl e \<Rightarrow> False))"

definition has_text :: "json \<Rightarrow> bool" where
  "has_text msg = (case py_getitem msg ''text'' of Inr v \<Rightarrow> True | Inl e \<Rightarrow> False)"

text \<open>A message is a question when the first loop of \<^verbatim>\<open>get_top_users\<close> finds a
  sentence with a question mark in its text, rebuilt where it has to be.\<close>

definition is_question_msg :: "libs \<Rightarrow> json \<Rightarrow> bool" where
  "is_question_msg L msg =
     (case fst (rebuild_text msg) of
        Inr t \<Rightarrow> list_ex has_qmark (hazm_sent_tokenize L t)
      | Inl e \<Rightarrow> False)"

text \<open>What a message adds to \<^verbatim>\<open>text_content\<close> in \<^verbatim>\<open>generate_word_cloud\<close>.\<close>

definition cloud_words :: "libs \<Rightarrow> string set \<Rightarrow> json \<Rightarrow> string" where
  "cloud_words L stops msg =
     (case py_getitem msg ''text'' of Inr (JStr s) \<Rightarrow> msg_words L stops s | _ \<Rightarrow> [])"

text \<open>Two messages that differ at most in \<^verbatim>\<open>from\<close>, the first replying to \<open>r\<close>.\<close>

definition same_but_from :: "json \<Rightarrow> json \<Rightarrow> json \<Rightarrow> bool" where
  "same_but_from r a b =
     (a = b \<or>
      (\<exists>ka kb. a = JObj ka \<and> b = JObj kb
         \<and> (\<forall>key. key \<noteq> ''from'' \<longrightarrow> map_of kb key = map_of ka key)
         \<and> map_of ka ''reply_to_message_id'' = Some r))"

subsection \<open>Concrete exports and libraries\<close>

text \<open>Stand-ins for the libraries, for evaluating the methods on concrete exports: every
  non-empty text is one sentence and one word, and nothing is rewritten.\<close>

definition plain_libs :: libs where
  "plain_libs =
     \<lparr>normalizer_normalize = (\<lambda>s. s),
      hazm_sent_tokenize = (\<lambda>s. if s = [] then [] else [s]),
      hazm_word_tokenize = (\<lambda>s. if s = [] then [] else [s]),
      arabic_reshape = (\<lambda>s. s),
      bidi_get_display = (\<lambda>s. s),
      str_strip = (\<lambda>s. s),
      DATA_DIR = ''data''\<rparr>"

text \<open>A question, a reply to it, a question in segments, two replies to that one and a
  reply to a message that is not in the export.\<close>

definition demo_head :: "json list" where
  "demo_head =
     [JObj [(''id'', JInt 1), (''text'', JStr ''Is this true?''), (''from'', JStr ''A'')],
      JObj [(''id'', JInt 2), (''text'', JStr ''yes''), (''from'', JStr ''B''),
            (''reply_to_message_id'', JInt 1)]]"

definition demo_segmented :: json where
  "demo_segmented =
     JObj [(''id'', JInt 3), (''from'', JStr ''C''),
           (''text'', JList [JObj [(''type'', JStr ''bold''), (''text'', JStr ''weather'')],
                             JStr ''?''])]"

definition demo_dangling :: "(string \<times> json) list" where
  "demo_dangling =
     [(''id'', JInt 5), (''text'', JStr ''hm''), (''from'', JStr ''D''),
      (''reply_to_message_id'', JInt 99)]"

definition demo_tail :: "json list" where
  "demo_tail =
     [JObj [(''id'', JInt 4), (''text'', JStr ''rain''), (''from'', JStr ''B''),
            (''reply_to_message_id'', JInt 3)],
      JObj demo_dangling,
      JObj [(''id'', JInt 6), (''text'', JStr ''sun''), (''from'', JStr ''A''),
            (''reply_to_message_id'', JInt 3)]]"

definition demo_messages :: "json list" where
  "demo_messages = demo_head @ demo_segmented # demo_tail"

definition demo_chat :: chat_statistics where
  "demo_chat =
     \<lparr>chat_data = JObj [(''name'', JStr ''demo''), (''messages'', JList demo_messages)],
      stop_words = {''yes''}\<rparr>"

text \<open>A normalizer that, like hazm's, writes the Arabic letter kaf (U+0643, bytes D9 83)
  as the Persian one (U+06A9, bytes DA A9); a \<^verbatim>\<open>strip\<close> that cuts a line at its
  newline; the word \<^verbatim>\<open>ke\<close> in both spellings.\<close>

fun unify_kaf :: "string \<Rightarrow> string" where
  "unify_kaf (a # b # cs) =
     (if a = CHR 0xD9 \<and> b = CHR 0x83 then CHR 0xDA # CHR 0xA9 # unify_kaf cs
      else a # unify_kaf (b # cs))"
| "unify_kaf cs = cs"

definition kaf_libs :: libs where
  "kaf_libs =
     plain_libs\<lparr>normalizer_normalize := unify_kaf,
                str_strip := takeWhile (\<lambda>c. c \<noteq> CHR 0x0A)\<rparr>"

definition arabic_ke :: string where
  "arabic_ke = [CHR 0xD9, CHR 0x83, CHR 0xD9, CHR 0x87]"

definition persian_ke :: string where
  "persian_ke = [CHR 0xDA, CHR 0xA9, CHR 0xD9, CHR 0x87]"

definition kaf_chat :: chat_statistics where
  "kaf_chat =
     init kaf_libs
       (JObj [(''messages'',
               JList [JObj [(''id'', JInt 1), (''from'', JStr ''A''), (''text'', JStr arabic_ke)]])])
       [persian_ke @ [CHR 0x0A]]"

section \<open>rebuild_msg\<close>

lemma rebuild_step_char:
  "rebuild_step x acc = (if sub_msg_ok x then Inr (acc @ sub_msg_text x) else Inl TypeError)"
  by (cases x) (auto split: option.splits json.splits)

lemma rebuild_loop_char:
  "rebuild_loop subs acc =
     (if list_all sub_msg_ok subs then Inr (acc @ concat (map sub_msg_text subs))
      else Inl TypeError)"
  by (induction subs arbitrary: acc) (simp_all add: rebuild_step_char)

text \<open>
  C9, as amended. For a sequence whose elements are all accepted, \<^verbatim>\<open>rebuild_msg\<close> returns
  the in-order concatenation of the string elements and of the string \<^verbatim>\<open>text\<close> values
  of the records that have one; records without \<^verbatim>\<open>text\<close> add nothing. As soon as one
  element is a number, a boolean or \<^verbatim>\<open>None\<close> (or a record whose \<^verbatim>\<open>text\<close> is not a
  string, or a list holding the string \<^verbatim>\<open>text\<close>), the call raises TypeError.
\<close>

theorem rebuild_msg_concat:
  "rebuild_msg (JList subs) =
     (if \<forall>x\<in>set subs. sub_msg_ok x then Inr (concat (map sub_msg_text subs))
      else Inl TypeError)"
proof (cases "list_all sub_msg_ok subs")
  case True
  then show ?thesis
    by (simp add: rebuild_msg_def rebuild_loop_char list_all_iff)
next
  case False
  then show ?thesis
    by (simp add: rebuild_msg_def rebuild_loop_char list_all_iff)
qed

theorem rebuild_msg_concat_witness:
  "sub_msg_ok (JObj [(''text'', JStr ''a'')]) \<and> sub_msg_ok (JStr ''b'')
   \<and> sub_msg_ok (JObj [(''other'', JInt 1)]) \<and> sub_msg_ok (JStr ''c'')
   \<and> rebuild_msg
         (JList [JObj [(''text'', JStr ''a'')], JStr ''b'', JObj [(''other'', JInt 1)], JStr ''c''])
       = Inr ''abc''"
  using rebuild_msg_concat
    [of "[JObj [(''text'', JStr ''a'')], JStr ''b'', JObj [(''other'', JInt 1)], JStr ''c'']"]
  by simp

text \<open>C9 as stated fails: an element that is neither a string nor a record is not
  skipped. \<^verbatim>\<open>rebuild_msg(["a", 1, "c"])\<close> raises at \<^verbatim>\<open>'text' in 1\<close>.\<close>

theorem rebuild_msg_number_counterexample:
  "rebuild_msg (JList [JStr ''a'', JInt 1, JStr ''c'']) = Inl TypeError"
  by (simp add: rebuild_msg_def)

section \<open>The text of a message, rebuilt in place\<close>

lemma has_qmark_simps:
  "has_qmark [] = False"
  "has_qmark (c # cs) = (c = CHR ''?'' \<or> prefix arabic_qmark (c # cs) \<or> has_qmark cs)"
  by (auto simp: has_qmark_def arabic_qmark_def sublist_Cons_right)

lemma rebuild_text_wf:
  "map_of kvs ''text'' = Some v \<Longrightarrow> is_text v \<Longrightarrow>
   rebuild_text (JObj kvs) =
     (Inr (text_str v),
      case v of JStr s \<Rightarrow> JObj kvs
      | _ \<Rightarrow> JObj (AList.update ''text'' (JStr (text_str v)) kvs))"
  by (cases v) (simp_all add: rebuild_msg_def rebuild_loop_char)

lemma rebuild_text_getitem:
  "k \<noteq> ''text'' \<Longrightarrow> py_getitem (snd (rebuild_text msg)) k = py_getitem msg k"
  by (cases msg) (auto simp: update_conv' split: option.splits json.splits sum.splits)

lemma rebuild_text_effect:
  assumes "fst (rebuild_text m) = Inr t"
  shows "\<exists>v. py_getitem m ''text'' = Inr v
           \<and> (case v of JStr s \<Rightarrow> t = s | _ \<Rightarrow> rebuild_msg v = Inr t)
           \<and> py_getitem (snd (rebuild_text m)) ''text'' = Inr (JStr t)"
  using assms
  by (cases m) (auto simp: update_conv' split: option.splits json.splits sum.splits)

lemma rebuild_text_ok:
  "indexable msg \<Longrightarrow> \<exists>t. fst (rebuild_text msg) = Inr t"
  by (cases msg)
     (auto simp: indexable_def rebuild_text_wf simp del: rebuild_text.simps split: option.splits)

lemma rebuild_text_replyable: "replyable m \<Longrightarrow> replyable (snd (rebuild_text m))"
  by (cases m)
     (auto simp: replyable_def update_conv' split: option.splits json.splits sum.splits)

lemma rebuild_text_votable: "votable m \<Longrightarrow> votable (snd (rebuild_text m))"
  by (simp add: votable_def rebuild_text_replyable rebuild_text_getitem)

lemma has_text_rebuilt:
  "fst (rebuild_text m) = Inr t \<Longrightarrow> has_text m \<and> has_text (snd (rebuild_text m))"
  using rebuild_text_effect [of m t] by (auto simp: has_text_def)

lemma cloud_words_rebuilt:
  "fst (rebuild_text m) = Inr t \<Longrightarrow>
   cloud_words L stops (snd (rebuild_text m)) = msg_words L stops t"
  using rebuild_text_effect [of m t] by (auto simp: cloud_words_def)

lemma is_message_indexable: "is_message m \<Longrightarrow> indexable m"
  by (cases m) (auto simp: indexable_def split: option.splits json.splits)

lemma is_message_votable: "is_message m \<Longrightarrow> votable m"
  by (cases m) (auto simp: votable_def replyable_def split: option.splits json.splits)

lemma is_message_has_text: "is_message m \<Longrightarrow> has_text m"
  by (cases m) (auto simp: has_text_def split: option.splits)

lemma is_message_id: "is_message m \<Longrightarrow> \<exists>n. py_getitem m ''id'' = Inr (JInt n)"
  by (cases m) (auto split: option.splits json.splits)

section \<open>msg_has_question\<close>

lemma question_scan_True: "question_scan ss"
  by (induction ss) simp_all

text \<open>
  C1. Whenever \<^verbatim>\<open>msg_has_question\<close> returns, it returns \<^verbatim>\<open>True\<close>; and it does return
  for every message record, that is a dictionary whose \<^verbatim>\<open>text\<close> is a string or a
  sequence of accepted elements, whatever the sentences of that text are.
\<close>

theorem msg_has_question_always_true:
  "(\<forall>b. fst (msg_has_question L msg) = Inr b \<longrightarrow> b) \<and>
   (\<forall>kvs v. msg = JObj kvs \<longrightarrow> map_of kvs ''text'' = Some v \<longrightarrow> is_text v \<longrightarrow>
      fst (msg_has_question L msg) = Inr True)"
proof (intro conjI allI impI)
  fix b assume "fst (msg_has_question L msg) = Inr b"
  then show b
    by (auto simp: msg_has_question_def question_scan_True split: prod.splits sum.splits)
next
  fix kvs v
  assume "msg = JObj kvs" "map_of kvs ''text'' = Some v" "is_text v"
  then show "fst (msg_has_question L msg) = Inr True"
    by (simp add: msg_has_question_def rebuild_text_wf question_scan_True
        del: rebuild_text.simps)
qed

theorem msg_has_question_always_true_witness:
  "fst (msg_has_question plain_libs (JObj [(''id'', JInt 2), (''text'', JStr ''yes'')])) = Inr True
   \<and> \<not> has_qmark ''yes''"
  using msg_has_question_always_true
    [of plain_libs "JObj [(''id'', JInt 2), (''text'', JStr ''yes'')]"]
  by (simp add: has_qmark_simps arabic_qmark_def)

section \<open>The question index\<close>

lemma sentence_loop_char:
  "sentence_loop ss msg idx =
     (if list_ex has_qmark ss
      then (case py_getitem msg ''id'' of
              Inl e \<Rightarrow> Inl e
            | Inr i \<Rightarrow> if py_hashable i then Inr (idx(norm_key i \<mapsto> True)) else Inl TypeError)
      else Inr idx)"
  by (induction ss) simp_all

lemma index_step_char:
  "index_step L msg idx =
     (case rebuild_text msg of
        (Inl e, msg') \<Rightarrow> (Inl e, msg')
      | (Inr t, msg') \<Rightarrow>
          (if list_ex has_qmark (hazm_sent_tokenize L t)
           then (case py_getitem msg ''id'' of
                   Inl e \<Rightarrow> Inl e
                 | Inr i \<Rightarrow> if py_hashable i then Inr (idx(norm_key i \<mapsto> True))
                            else Inl TypeError)
           else Inr idx, msg'))"
proof (cases "rebuild_text msg")
  case (Pair r msg')
  then have "py_getitem msg' ''id'' = py_getitem msg ''id''"
    using rebuild_text_getitem [of "''id''" msg] by simp
  with Pair show ?thesis
    by (cases r) (simp_all add: index_step_def sentence_loop_char)
qed

lemma index_step_msg: "snd (index_step L msg idx) = snd (rebuild_text msg)"
  by (cases "rebuild_text msg") (auto simp: index_step_def split: sum.splits)

lemma index_step_text:
  "index_step L m idx = (Inr idx', m') \<Longrightarrow> \<exists>t. fst (rebuild_text m) = Inr t"
  by (cases "rebuild_text m") (auto simp: index_step_def split: sum.splits)

lemma index_step_index:
  assumes "index_step L msg idx = (Inr idx', msg')"
  shows "idx' k =
     (if is_question_msg L msg \<and> (\<exists>i. py_getitem msg ''id'' = Inr i \<and> norm_key i = k)
      then Some True else idx k)"
  using assms
  by (cases "rebuild_text msg")
     (auto simp: index_step_char is_question_msg_def split: sum.splits if_splits)

lemma index_step_ok:
  "indexable msg \<Longrightarrow> \<exists>idx'. fst (index_step L msg idx) = Inr idx'"
  using rebuild_text_ok [of msg]
  by (cases "rebuild_text msg")
     (auto simp: index_step_char indexable_def split: json.splits option.splits)

lemma index_step_no_text:
  "py_getitem m ''text'' = Inl (KeyError ''text'') \<Longrightarrow>
   fst (index_step L m idx) = Inl (KeyError ''text'')"
  by (cases m) (auto simp: index_step_def split: option.splits)

lemma index_step_bad_text:
  "py_getitem m ''text'' = Inr v \<Longrightarrow> py_iter v = Inl TypeError \<Longrightarrow>
   fst (index_step L m idx) = Inl TypeError"
  by (cases m; cases v) (auto simp: index_step_def rebuild_msg_def split: option.splits)

text \<open>A run of the first loop that ends well, unfolded one message.\<close>

lemma index_loop_Cons:
  assumes "index_loop L (m # ms) idx = (Inr idx', msgs')"
  obtains idx1 m1 ms1 where "index_step L m idx = (Inr idx1, m1)"
    and "index_loop L ms idx1 = (Inr idx', ms1)" and "msgs' = m1 # ms1"
proof -
  obtain r m1 where s: "index_step L m idx = (r, m1)" by (cases "index_step L m idx")
  with assms obtain idx1 where r: "r = Inr idx1" by (cases r) auto
  obtain r2 ms1 where l: "index_loop L ms idx1 = (r2, ms1)" by (cases "index_loop L ms idx1")
  with assms s r have "r2 = Inr idx'" and "msgs' = m1 # ms1" by auto
  with s r l that show ?thesis by simp
qed

lemma index_loop_index:
  "index_loop L msgs idx = (Inr idx', msgs') \<Longrightarrow>
   idx' k =
     (if \<exists>m\<in>set msgs. is_question_msg L m
            \<and> (\<exists>i. py_getitem m ''id'' = Inr i \<and> norm_key i = k)
      then Some True else idx k)"
proof (induction msgs arbitrary: idx msgs')
  case Nil
  then show ?case by simp
next
  case (Cons m ms)
  from Cons.prems obtain idx1 m1 ms1 where s: "index_step L m idx = (Inr idx1, m1)"
    and l: "index_loop L ms idx1 = (Inr idx', ms1)"
    by (rule index_loop_Cons)
  from Cons.IH [OF l] index_step_index [OF s, of k] show ?case by auto
qed

lemma index_loop_msgs:
  "index_loop L msgs idx = (Inr idx', msgs') \<Longrightarrow>
   msgs' = map (\<lambda>m. snd (rebuild_text m)) msgs"
proof (induction msgs arbitrary: idx msgs')
  case Nil
  then show ?case by simp
next
  case (Cons m ms)
  from Cons.prems obtain idx1 m1 ms1 where s: "index_step L m idx = (Inr idx1, m1)"
    and l: "index_loop L ms idx1 = (Inr idx', ms1)" and m: "msgs' = m1 # ms1"
    by (rule index_loop_Cons)
  from index_step_msg [of L m idx] s have "m1 = snd (rebuild_text m)" by simp
  with Cons.IH [OF l] m show ?case by simp
qed

lemma index_loop_texts:
  "index_loop L msgs idx = (Inr idx', msgs') \<Longrightarrow> m \<in> set msgs \<Longrightarrow>
   \<exists>t. fst (rebuild_text m) = Inr t"
proof (induction msgs arbitrary: idx msgs')
  case Nil
  then show ?case by simp
next
  case (Cons a ms)
  from Cons.prems(1) obtain idx1 a1 ms1 where s: "index_step L a idx = (Inr idx1, a1)"
    and l: "index_loop L ms idx1 = (Inr idx', ms1)"
    by (rule index_loop_Cons)
  from Cons.prems(2) Cons.IH [OF l] index_step_text [OF s] show ?case by auto
qed

lemma index_loop_ok:
  "list_all indexable msgs \<Longrightarrow> \<exists>idx'. fst (index_loop L msgs idx) = Inr idx'"
proof (induction msgs arbitrary: idx)
  case Nil
  then show ?case by simp
next
  case (Cons m ms)
  then obtain idx1 where "fst (index_step L m idx) = Inr idx1"
    using index_step_ok [of m L idx] by auto
  moreover from Cons obtain idx2 where "fst (index_loop L ms idx1) = Inr idx2" by fastforce
  ultimately show ?case by (auto split: prod.splits sum.splits)
qed

lemma index_loop_append:
  "fst (index_loop L (pre @ rest) idx) =
     (case fst (index_loop L pre idx) of
        Inl e \<Rightarrow> Inl e
      | Inr idx1 \<Rightarrow> fst (index_loop L rest idx1))"
proof (induction pre arbitrary: idx)
  case Nil
  then show ?case by simp
next
  case (Cons a as)
  obtain r a1 where s: "index_step L a idx = (r, a1)" by (cases "index_step L a idx")
  show ?case
  proof (cases r)
    case (Inl e)
    with s show ?thesis by simp
  next
    case (Inr idx1)
    with s Cons.IH [of idx1] show ?thesis
      by (cases "index_loop L as idx1"; cases "index_loop L (as @ rest) idx1") simp
  qed
qed

lemma index_loop_fail:
  assumes "fst (index_loop L pre idx) = Inr idx1" "fst (index_step L m idx1) = Inl e"
  shows "fst (index_loop L (pre @ m # post) idx) = Inl e"
proof -
  from assms(2) have "fst (index_loop L (m # post) idx1) = Inl e"
    by (cases "index_step L m idx1") auto
  with assms(1) show ?thesis
    by (simp add: index_loop_append)
qed

text \<open>A text that is a JSON object: its keys, one after the other, are its text.\<close>

lemma rebuild_msg_obj: "rebuild_msg (JObj tkvs) = Inr (concat (map fst tkvs))"
proof -
  have "list_all sub_msg_ok (map (\<lambda>kv. JStr (fst kv)) tkvs)"
    by (simp add: list_all_iff)
  moreover have "concat (map sub_msg_text (map (\<lambda>kv. JStr (fst kv)) tkvs))
                 = concat (map fst tkvs)"
    by (simp add: comp_def)
  ultimately show ?thesis
    by (simp add: rebuild_msg_def rebuild_loop_char)
qed

lemma index_step_obj_text:
  assumes "map_of mk ''text'' = Some (JObj tkvs)"
  shows "index_step L (JObj mk) idx
         = index_step L (JObj (AList.update ''text'' (JStr (concat (map fst tkvs))) mk)) idx"
proof -
  let ?t = "concat (map fst tkvs)"
  let ?m' = "JObj (AList.update ''text'' (JStr ?t) mk)"
  from assms have a: "rebuild_text (JObj mk) = (Inr ?t, ?m')"
    by (simp add: rebuild_msg_obj)
  have b: "rebuild_text ?m' = (Inr ?t, ?m')"
    by (simp add: update_conv')
  have "py_getitem ?m' ''id'' = py_getitem (JObj mk) ''id''"
    by (simp add: update_conv')
  with a b show ?thesis
    by (simp add: index_step_char del: rebuild_text.simps py_getitem.simps)
qed

lemma index_loop_obj_text:
  assumes "map_of mk ''text'' = Some (JObj tkvs)"
  shows "fst (index_loop L (pre @ JObj mk # post) idx)
         = fst (index_loop L
             (pre @ JObj (AList.update ''text'' (JStr (concat (map fst tkvs))) mk) # post) idx)
       \<and> (\<forall>idx'. fst (index_loop L (pre @ JObj mk # post) idx) = Inr idx' \<longrightarrow>
            snd (index_loop L (pre @ JObj mk # post) idx)
            = snd (index_loop L
                (pre @ JObj (AList.update ''text'' (JStr (concat (map fst tkvs))) mk) # post)
                idx))"
proof (induction pre arbitrary: idx)
  case Nil
  from index_step_obj_text [OF assms, of L idx] show ?case by simp
next
  case (Cons a as)
  obtain r a1 where s: "index_step L a idx = (r, a1)" by (cases "index_step L a idx")
  show ?case
  proof (cases r)
    case (Inl e)
    with s show ?thesis by simp
  next
    case (Inr idx1)
    with s Cons.IH [of idx1] show ?thesis
      by (auto split: prod.splits)
  qed
qed

lemma is_question_msg_iff:
  "fst (rebuild_text m) = Inr t \<Longrightarrow>
   is_question_msg L m = (\<exists>s\<in>set (hazm_sent_tokenize L t). has_qmark s)"
  by (simp add: is_question_msg_def list_ex_iff)

lemma demo_is_message: "list_all is_message demo_messages"
  by (simp add: demo_messages_def demo_head_def demo_segmented_def demo_tail_def
      demo_dangling_def)

text \<open>
  C6. Over an export of message records with pairwise different ids, the first loop of
  \<^verbatim>\<open>get_top_users\<close> ends with an index that holds \<^verbatim>\<open>True\<close> under the id of a message
  exactly when some sentence of its text (rebuilt where it was segmented) contains
  \<^verbatim>\<open>?\<close> or the Arabic question mark, and holds nothing under the id of any other
  message, so that a message with no sentence or no question mark reads as \<^verbatim>\<open>False\<close>.
\<close>

theorem question_index_iff:
  assumes wf: "list_all is_message msgs"
    and ids: "distinct (map (\<lambda>m. py_getitem m ''id'') msgs)"
  shows "\<exists>idx msgs'. index_loop L msgs Map.empty = (Inr idx, msgs') \<and>
     (\<forall>m\<in>set msgs. \<forall>i t. py_getitem m ''id'' = Inr i \<longrightarrow> fst (rebuild_text m) = Inr t \<longrightarrow>
        idx (norm_key i) =
          (if \<exists>s\<in>set (hazm_sent_tokenize L t). has_qmark s then Some True else None))"
proof -
  from wf have "list_all indexable msgs"
    by (auto simp: list_all_iff is_message_indexable)
  from index_loop_ok [OF this] obtain idx msgs' where
    l: "index_loop L msgs Map.empty = (Inr idx, msgs')"
    by (metis prod.collapse)
  have "idx (norm_key i) =
          (if \<exists>s\<in>set (hazm_sent_tokenize L t). has_qmark s then Some True else None)"
    if m: "m \<in> set msgs" and i: "py_getitem m ''id'' = Inr i"
      and t: "fst (rebuild_text m) = Inr t"
    for m i t
  proof -
    from wf m have "is_message m" by (simp add: list_all_iff)
    with is_message_id i obtain n where n: "i = JInt n" by fastforce
    have same: "m' = m"
      if "m' \<in> set msgs" "py_getitem m' ''id'' = Inr i'" "norm_key i' = norm_key i" for m' i'
    proof -
      from wf that(1) have "is_message m'" by (simp add: list_all_iff)
      with is_message_id that(2) obtain n' where "i' = JInt n'" by fastforce
      with that(3) n have "i' = i" by simp
      with that(2) i have "py_getitem m' ''id'' = py_getitem m ''id''" by simp
      with ids m that(1) show ?thesis
        by (auto simp: distinct_map dest: inj_onD)
    qed
    have "(\<exists>m'\<in>set msgs. is_question_msg L m' \<and>
             (\<exists>i'. py_getitem m' ''id'' = Inr i' \<and> norm_key i' = norm_key i))
          = is_question_msg L m"
      using m i same by blast
    with index_loop_index [OF l, of "norm_key i"] is_question_msg_iff [OF t, of L]
    show ?thesis by simp
  qed
  with l show ?thesis by blast
qed

theorem question_index_iff_witness:
  "list_all is_message demo_messages
   \<and> distinct (map (\<lambda>m. py_getitem m ''id'') demo_messages)
   \<and> (\<exists>idx msgs'. index_loop plain_libs demo_messages Map.empty = (Inr idx, msgs')
         \<and> idx (JInt 1) = Some True \<and> idx (JInt 2) = None \<and> idx (JInt 3) = Some True)"
proof -
  have ids: "distinct (map (\<lambda>m. py_getitem m ''id'') demo_messages)"
    by (simp add: demo_messages_def demo_head_def demo_segmented_def demo_tail_def
        demo_dangling_def)
  from question_index_iff [OF demo_is_message ids, of plain_libs] obtain idx msgs' where
    l: "index_loop plain_libs demo_messages Map.empty = (Inr idx, msgs')"
    and a: "\<And>m i t. m \<in> set demo_messages \<Longrightarrow> py_getitem m ''id'' = Inr i \<Longrightarrow>
        fst (rebuild_text m) = Inr t \<Longrightarrow>
        idx (norm_key i) =
          (if \<exists>s\<in>set (hazm_sent_tokenize plain_libs t). has_qmark s then Some True else None)"
    by blast
  have "idx (JInt 1) = Some True"
    using a [of "demo_messages ! 0" "JInt 1" "''Is this true?''"]
    by (simp add: demo_messages_def demo_head_def plain_libs_def has_qmark_simps
        arabic_qmark_def)
  moreover have "idx (JInt 2) = None"
    using a [of "demo_messages ! 1" "JInt 2" "''yes''"]
    by (simp add: demo_messages_def demo_head_def plain_libs_def has_qmark_simps
        arabic_qmark_def)
  moreover have "idx (JInt 3) = Some True"
    using a [of demo_segmented "JInt 3" "''weather?''"]
    by (simp add: demo_messages_def demo_segmented_def plain_libs_def rebuild_msg_def
        has_qmark_simps arabic_qmark_def)
  ultimately show ?thesis
    using demo_is_message ids l by blast
qed

section \<open>Votes, counts and the top of the list\<close>

lemma vote_step_ok:
  assumes "votable m" "list_all py_hashable users"
  shows "\<exists>idx' users'. vote_step m idx users = Inr (idx', users') \<and> list_all py_hashable users'"
  using assms
  by (cases m) (auto simp: votable_def replyable_def split: option.splits bool.splits)

lemma vote_loop_ok:
  "list_all votable msgs \<Longrightarrow> list_all py_hashable users \<Longrightarrow>
   \<exists>us. vote_loop msgs idx users = Inr us \<and> list_all py_hashable us"
proof (induction msgs arbitrary: idx users)
  case Nil
  then show ?case by simp
next
  case (Cons m ms)
  then obtain idx1 users1 where
    s: "vote_step m idx users = Inr (idx1, users1)" and h: "list_all py_hashable users1"
    using vote_step_ok [of m users idx] by auto
  from Cons.IH [of users1 idx1] Cons.prems h s show ?case by simp
qed

lemma vote_step_replyable:
  assumes "replyable m"
  shows "vote_step m idx users = Inl (KeyError ''from'')
         \<or> (\<exists>idx' users'. vote_step m idx users = Inr (idx', users')
               \<and> (\<forall>k. idx k = Some True \<longrightarrow> idx' k = Some True))"
  using assms
  by (cases m) (auto simp: replyable_def split: option.splits bool.splits)

lemma vote_step_missing_from:
  assumes "py_getitem m ''from'' = Inl (KeyError ''from'')"
    "py_getitem m ''reply_to_message_id'' = Inr r" "py_truthy r" "py_hashable r"
    "idx (norm_key r) = Some True"
  shows "vote_step m idx users = Inl (KeyError ''from'')"
  using assms by (cases m) (auto split: option.splits)

lemma vote_loop_missing_from:
  assumes "py_getitem m ''from'' = Inl (KeyError ''from'')"
    "py_getitem m ''reply_to_message_id'' = Inr r" "py_truthy r" "py_hashable r"
  shows "list_all replyable msgs \<Longrightarrow> m \<in> set msgs \<Longrightarrow> idx (norm_key r) = Some True \<Longrightarrow>
         vote_loop msgs idx users = Inl (KeyError ''from'')"
proof (induction msgs arbitrary: idx users)
  case Nil
  then show ?case by simp
next
  case (Cons a as)
  from Cons.prems(1) have ra: "replyable a" by simp
  show ?case
  proof (cases "vote_step a idx users = Inl (KeyError ''from'')")
    case True
    then show ?thesis by simp
  next
    case False
    with vote_step_replyable [OF ra, of idx users] obtain idx1 users1 where
      s: "vote_step a idx users = Inr (idx1, users1)"
      and k: "\<forall>k. idx k = Some True \<longrightarrow> idx1 k = Some True" by blast
    from False vote_step_missing_from [OF assms, of idx users] Cons.prems(3)
    have "a \<noteq> m" by auto
    with Cons.prems have "m \<in> set as" by simp
    moreover from k Cons.prems(3) have "idx1 (norm_key r) = Some True" by simp
    ultimately have "vote_loop as idx1 users1 = Inl (KeyError ''from'')"
      using Cons.IH Cons.prems(1) by simp
    with s show ?thesis by simp
  qed
qed

lemma vote_step_keeps_absent:
  "vote_step m idx users = Inr (idx', users') \<Longrightarrow> idx k \<noteq> Some True \<Longrightarrow>
   idx' k \<noteq> Some True"
  by (cases m) (auto split: option.splits if_splits bool.splits)

lemma counter_ok:
  "list_all py_hashable us \<Longrightarrow> \<exists>c. counter us counts = Inr c"
  by (induction us arbitrary: counts) auto

lemma counter_add_keys:
  "(\<lambda>kc. norm_key (fst kc)) ` set (counter_add u counts) =
     insert (norm_key u) ((\<lambda>kc. norm_key (fst kc)) ` set counts)"
  by (induction u counts rule: counter_add.induct) auto

lemma counter_add_distinct:
  "distinct (map (\<lambda>kc. norm_key (fst kc)) counts) \<Longrightarrow>
   distinct (map (\<lambda>kc. norm_key (fst kc)) (counter_add u counts))"
proof (induction u counts rule: counter_add.induct)
  case (1 u)
  then show ?case by simp
next
  case (2 u k c rest)
  show ?case
  proof (cases "norm_key k = norm_key u")
    case True
    with 2 show ?thesis by simp
  next
    case False
    with 2 show ?thesis by (simp add: counter_add_keys)
  qed
qed

lemma counter_distinct:
  "counter us counts = Inr c \<Longrightarrow> distinct (map (\<lambda>kc. norm_key (fst kc)) counts) \<Longrightarrow>
   distinct (map (\<lambda>kc. norm_key (fst kc)) c)"
  by (induction us arbitrary: counts) (auto simp: counter_add_distinct split: if_splits)

lemma most_common_length: "length (most_common n counts) \<le> nat n"
  by (simp add: most_common_def)

lemma sorted_neg_iff:
  "sorted (map (\<lambda>kc. - snd kc) xs) =
   sorted_wrt (\<lambda>a b. b \<le> a) (map snd (xs :: ('a \<times> int) list))"
  by (induction xs) auto

lemma most_common_sorted: "sorted_wrt (\<lambda>a b. b \<le> a) (map snd (most_common n counts))"
proof -
  have "sorted (map (\<lambda>kc. - snd kc) (sort_key (\<lambda>kc. - snd kc) counts))"
    by (rule sorted_sort_key)
  then have "sorted (map (\<lambda>kc. - snd kc) (take (nat n) (sort_key (\<lambda>kc. - snd kc) counts)))"
    by (simp add: take_map [symmetric])
  then show ?thesis
    by (simp add: most_common_def sorted_neg_iff)
qed

lemma most_common_distinct:
  assumes "distinct (map g counts)"
  shows "distinct (map g (most_common n counts))"
proof -
  from assms have "distinct counts" "inj_on g (set counts)"
    by (simp_all add: distinct_map)
  then have "distinct (map g (sort_key (\<lambda>kc. - snd kc) counts))"
    by (simp add: distinct_map)
  then show ?thesis
    by (simp add: most_common_def take_map [symmetric])
qed

section \<open>get_top_users\<close>

lemma get_top_users_fst:
  "py_getitem (chat_data self) ''messages'' = Inr (JList msgs) \<Longrightarrow>
   fst (get_top_users L self k) =
     (case fst (index_loop L msgs Map.empty) of
        Inl e \<Rightarrow> Inl e
      | Inr idx \<Rightarrow>
          (case vote_loop (snd (index_loop L msgs Map.empty)) idx [] of
             Inl e \<Rightarrow> Inl e
           | Inr users \<Rightarrow>
               (case counter users [] of
                  Inl e \<Rightarrow> Inl e
                | Inr counts \<Rightarrow> Inr (most_common k counts))))"
  by (auto simp: get_top_users_def split: prod.splits sum.splits)

lemma get_top_users_result:
  "fst (get_top_users L self k) = Inr res \<Longrightarrow>
   \<exists>counts us. counter us [] = Inr counts \<and> res = most_common k counts"
  by (auto simp: get_top_users_def split: sum.splits prod.splits)

lemma get_top_users_ok:
  assumes "py_getitem (chat_data self) ''messages'' = Inr (JList msgs)"
    "list_all is_message msgs"
  shows "\<exists>res. fst (get_top_users L self k) = Inr res"
proof -
  from assms(2) have ix: "list_all indexable msgs" and vt: "list_all votable msgs"
    by (auto simp: list_all_iff is_message_indexable is_message_votable)
  from index_loop_ok [OF ix] obtain idx msgs' where
    l: "index_loop L msgs Map.empty = (Inr idx, msgs')"
    by (metis prod.collapse)
  from index_loop_msgs [OF l] vt have "list_all votable msgs'"
    by (auto simp: list_all_iff rebuild_text_votable)
  from vote_loop_ok [OF this, of "[]" idx] obtain us where
    v: "vote_loop msgs' idx [] = Inr us" and h: "list_all py_hashable us" by auto
  from counter_ok [OF h, of "[]"] obtain c where "counter us [] = Inr c" ..
  with assms(1) l v show ?thesis
    by (simp add: get_top_users_fst)
qed

lemma get_top_users_state:
  assumes "get_top_users L self k = (Inr res, self')"
    and "chat_data self = JObj kvs" "map_of kvs ''messages'' = Some (JList msgs)"
  shows "\<exists>idx. index_loop L msgs Map.empty = (Inr idx, map (\<lambda>m. snd (rebuild_text m)) msgs)
           \<and> self' = self\<lparr>chat_data :=
                JObj (AList.update ''messages''
                       (JList (map (\<lambda>m. snd (rebuild_text m)) msgs)) kvs)\<rparr>"
proof (cases "index_loop L msgs Map.empty")
  case (Pair r msgs1)
  with assms obtain idx where r: "r = Inr idx"
    by (cases r) (auto simp: get_top_users_def)
  from index_loop_msgs [OF Pair [unfolded r]]
  have m: "msgs1 = map (\<lambda>m. snd (rebuild_text m)) msgs" .
  from assms Pair r
  have "self' = self\<lparr>chat_data := JObj (AList.update ''messages'' (JList msgs1) kvs)\<rparr>"
    by (auto simp: get_top_users_def)
  with Pair r m show ?thesis by simp
qed

text \<open>
  C7. Whenever \<^verbatim>\<open>get_top_users(top_n=k)\<close> returns, the mapping it returns has pairwise
  different keys, counts that never increase along its order and, for \<open>k \<ge> 0\<close>, at most
  \<open>k\<close> entries. It does return for every export whose messages are message records,
  and for an export with no message it returns the empty mapping.
\<close>

theorem get_top_users_top_n:
  "(\<forall>res. fst (get_top_users L self k) = Inr res \<longrightarrow>
      (0 \<le> k \<longrightarrow> int (length res) \<le> k)
      \<and> sorted_wrt (\<lambda>a b. b \<le> a) (map snd res)
      \<and> distinct (map (\<lambda>kc. norm_key (fst kc)) res))
   \<and> (\<forall>msgs. py_getitem (chat_data self) ''messages'' = Inr (JList msgs) \<longrightarrow>
        list_all is_message msgs \<longrightarrow> (\<exists>res. fst (get_top_users L self k) = Inr res))
   \<and> (py_getitem (chat_data self) ''messages'' = Inr (JList []) \<longrightarrow>
        fst (get_top_users L self k) = Inr [])"
proof (intro conjI allI impI)
  fix res assume r: "fst (get_top_users L self k) = Inr res"
  then obtain counts us where c: "counter us [] = Inr counts"
    and res: "res = most_common k counts"
    using get_top_users_result by blast
  show "sorted_wrt (\<lambda>a b. b \<le> a) (map snd res)"
    by (simp add: res most_common_sorted)
  from counter_distinct [OF c] show "distinct (map (\<lambda>kc. norm_key (fst kc)) res)"
    by (simp add: res most_common_distinct)
  assume "0 \<le> k"
  with most_common_length [of k counts] show "int (length res) \<le> k"
    by (simp add: res)
next
  fix msgs
  assume "py_getitem (chat_data self) ''messages'' = Inr (JList msgs)"
    "list_all is_message msgs"
  then show "\<exists>res. fst (get_top_users L self k) = Inr res"
    by (rule get_top_users_ok)
next
  assume "py_getitem (chat_data self) ''messages'' = Inr (JList [])"
  then show "fst (get_top_users L self k) = Inr []"
    by (simp add: get_top_users_fst most_common_def)
qed

lemmas demo_defs =
  demo_chat_def demo_messages_def demo_head_def demo_segmented_def demo_tail_def
  demo_dangling_def

lemmas demo_eval =
  get_top_users_def generate_word_cloud_def index_step_def rebuild_msg_def plain_libs_def
  has_qmark_simps arabic_qmark_def most_common_def display_text_def msg_words_def

theorem get_top_users_top_n_witness:
  "list_all is_message demo_messages
   \<and> fst (get_top_users plain_libs demo_chat 1) = Inr [(JStr ''B'', 2)]
   \<and> fst (get_top_users plain_libs demo_chat 10) = Inr [(JStr ''B'', 2), (JStr ''A'', 1)]
   \<and> fst (get_top_users plain_libs
            \<lparr>chat_data = JObj [(''messages'', JList [])], stop_words = {}\<rparr> 10) = Inr []"
  using get_top_users_top_n [of plain_libs demo_chat 1]
    get_top_users_top_n
      [of plain_libs "\<lparr>chat_data = JObj [(''messages'', JList [])], stop_words = {}\<rparr>" 10]
  by (simp add: demo_defs demo_eval)

subsection \<open>A reply to a message that is not there\<close>

lemma same_but_from_rebuild:
  assumes "same_but_from r a b"
  shows "fst (rebuild_text a) = fst (rebuild_text b)
         \<and> same_but_from r (snd (rebuild_text a)) (snd (rebuild_text b))"
proof (cases "a = b")
  case True
  then show ?thesis by (simp add: same_but_from_def)
next
  case False
  with assms obtain ka kb where a: "a = JObj ka" and b: "b = JObj kb"
    and eq: "\<And>key. key \<noteq> ''from'' \<Longrightarrow> map_of kb key = map_of ka key"
    and r: "map_of ka ''reply_to_message_id'' = Some r"
    by (auto simp: same_but_from_def)
  have t: "map_of kb ''text'' = map_of ka ''text''" by (simp add: eq)
  show ?thesis
  proof (cases "map_of ka ''text''")
    case None
    with a b t eq r show ?thesis by (simp add: same_but_from_def)
  next
    case (Some v)
    show ?thesis
    proof (cases "rebuild_msg v")
      case (Inl e)
      with Some a b t eq r show ?thesis
        by (cases v) (simp_all add: same_but_from_def)
    next
      case (Inr s)
      with Some a b t eq r show ?thesis
        by (cases v) (simp_all add: same_but_from_def update_conv')
    qed
  qed
qed

lemma same_but_from_getitem:
  "same_but_from r a b \<Longrightarrow> key \<noteq> ''from'' \<Longrightarrow> py_getitem a key = py_getitem b key"
  by (auto simp: same_but_from_def)

lemma same_but_from_index_step:
  assumes "same_but_from r a b"
  shows "fst (index_step L a idx) = fst (index_step L b idx)
         \<and> same_but_from r (snd (index_step L a idx)) (snd (index_step L b idx))"
proof -
  from same_but_from_rebuild [OF assms] have
    f: "fst (rebuild_text a) = fst (rebuild_text b)"
    and s: "same_but_from r (snd (rebuild_text a)) (snd (rebuild_text b))" by simp_all
  have i: "py_getitem a ''id'' = py_getitem b ''id''"
    using assms by (simp add: same_but_from_getitem)
  have "fst (index_step L a idx) = fst (index_step L b idx)"
    using f i
    by (cases "rebuild_text a"; cases "rebuild_text b")
       (auto simp: index_step_char split: sum.splits)
  with s show ?thesis by (simp add: index_step_msg)
qed

lemma same_but_from_index_loop:
  "list_all2 (same_but_from r) as bs \<Longrightarrow>
   fst (index_loop L as idx) = fst (index_loop L bs idx)
   \<and> list_all2 (same_but_from r) (snd (index_loop L as idx)) (snd (index_loop L bs idx))"
proof (induction as bs arbitrary: idx rule: list_all2_induct)
  case Nil
  then show ?case by simp
next
  case (Cons a as b bs)
  from same_but_from_index_step [OF Cons.hyps(1), of L idx] have
    f: "fst (index_step L a idx) = fst (index_step L b idx)"
    and s: "same_but_from r (snd (index_step L a idx)) (snd (index_step L b idx))"
    by simp_all
  obtain ra a1 where sa: "index_step L a idx = (ra, a1)" by (cases "index_step L a idx")
  obtain rb b1 where sb: "index_step L b idx = (rb, b1)" by (cases "index_step L b idx")
  from f s sa sb have rr: "rb = ra" and ab: "same_but_from r a1 b1" by simp_all
  show ?case
  proof (cases ra)
    case (Inl e)
    with sa sb rr ab Cons.hyps(2) show ?thesis by simp
  next
    case (Inr idx1)
    with sa sb rr ab Cons.IH [of idx1] show ?thesis
      by (auto split: prod.splits)
  qed
qed

lemma same_but_from_vote_step:
  assumes "same_but_from r a b" "idx (norm_key r) \<noteq> Some True"
  shows "vote_step a idx users = vote_step b idx users"
proof (cases "a = b")
  case True
  then show ?thesis by simp
next
  case False
  with assms obtain ka kb where a: "a = JObj ka" and b: "b = JObj kb"
    and eq: "\<And>key. key \<noteq> ''from'' \<Longrightarrow> map_of kb key = map_of ka key"
    and r: "map_of ka ''reply_to_message_id'' = Some r"
    by (auto simp: same_but_from_def)
  from eq r have rb: "map_of kb ''reply_to_message_id'' = Some r" by simp
  from assms(2) show ?thesis
    by (cases "idx (norm_key r)") (auto simp: a b r rb)
qed

lemma same_but_from_vote_loop:
  "list_all2 (same_but_from r) as bs \<Longrightarrow> idx (norm_key r) \<noteq> Some True \<Longrightarrow>
   vote_loop as idx users = vote_loop bs idx users"
proof (induction as bs arbitrary: idx users rule: list_all2_induct)
  case Nil
  then show ?case by simp
next
  case (Cons a as b bs)
  have e: "vote_step b idx users = vote_step a idx users"
    using same_but_from_vote_step [of r a b idx users] Cons.hyps(1) Cons.prems by simp
  show ?case
  proof (cases "vote_step a idx users")
    case (Inl err)
    with e show ?thesis by simp
  next
    case (Inr p)
    obtain idx1 users1 where p: "p = (idx1, users1)" by (cases p)
    from vote_step_keeps_absent [OF Inr [unfolded p] Cons.prems]
    have "idx1 (norm_key r) \<noteq> Some True" .
    with Cons.IH [of idx1 users1] Inr p e show ?thesis by simp
  qed
qed

text \<open>
  C8. Let a message of the export reply to an id that no message of the export carries.
  Then what \<^verbatim>\<open>get_top_users\<close> returns, counts or exception, does not depend on the
  sender of that message: putting any value under its \<^verbatim>\<open>from\<close> leaves the result as
  it is, so the message gives its sender no vote.
\<close>

theorem dangling_reply_no_vote:
  assumes reply: "map_of mk ''reply_to_message_id'' = Some r"
    and dangling: "\<forall>m'\<in>set (pre @ JObj mk # post). \<forall>i.
                     py_getitem m' ''id'' = Inr i \<longrightarrow> norm_key i \<noteq> norm_key r"
  shows "fst (get_top_users L
           \<lparr>chat_data = JObj (AList.update ''messages'' (JList (pre @ JObj mk # post)) ckvs),
            stop_words = stops\<rparr> k)
       = fst (get_top_users L
           \<lparr>chat_data = JObj (AList.update ''messages''
                              (JList (pre @ JObj (AList.update ''from'' u mk) # post)) ckvs),
            stop_words = stops\<rparr> k)"
proof -
  let ?as = "pre @ JObj mk # post"
  let ?bs = "pre @ JObj (AList.update ''from'' u mk) # post"
  have "same_but_from r (JObj mk) (JObj (AList.update ''from'' u mk))"
    using reply by (simp add: same_but_from_def update_conv')
  moreover have "list_all2 (same_but_from r) xs xs" for xs
    by (simp add: list_all2_same same_but_from_def)
  ultimately have rel: "list_all2 (same_but_from r) ?as ?bs"
    by (simp add: list_all2_appendI)
  from same_but_from_index_loop [OF rel, of L Map.empty] have
    f: "fst (index_loop L ?bs Map.empty) = fst (index_loop L ?as Map.empty)"
    and s: "list_all2 (same_but_from r) (snd (index_loop L ?as Map.empty))
              (snd (index_loop L ?bs Map.empty))" by simp_all
  have v: "vote_loop (snd (index_loop L ?as Map.empty)) idx []
         = vote_loop (snd (index_loop L ?bs Map.empty)) idx []"
    if "fst (index_loop L ?as Map.empty) = Inr idx" for idx
  proof -
    from that have "index_loop L ?as Map.empty = (Inr idx, snd (index_loop L ?as Map.empty))"
      by (metis prod.collapse)
    from index_loop_index [OF this, of "norm_key r"] dangling
    have "idx (norm_key r) \<noteq> Some True" by auto
    with same_but_from_vote_loop [of r _ _ idx "[]"] s show ?thesis by blast
  qed
  show ?thesis
    by (cases "fst (index_loop L ?as Map.empty)")
       (simp_all add: get_top_users_fst update_conv' f v)
qed

theorem dangling_reply_no_vote_witness:
  "map_of demo_dangling ''reply_to_message_id'' = Some (JInt 99)
   \<and> map_of demo_dangling ''from'' = Some (JStr ''D'')
   \<and> fst (get_top_users plain_libs demo_chat 10) = Inr [(JStr ''B'', 2), (JStr ''A'', 1)]
   \<and> fst (get_top_users plain_libs
       \<lparr>chat_data = JObj [(''name'', JStr ''demo''),
          (''messages'', JList (demo_head @ [demo_segmented, hd demo_tail]
              @ JObj (AList.update ''from'' (JStr ''A'') demo_dangling) # tl (tl demo_tail)))],
        stop_words = {''yes''}\<rparr> 10) = Inr [(JStr ''B'', 2), (JStr ''A'', 1)]"
  using dangling_reply_no_vote [of demo_dangling "JInt 99"
      "demo_head @ [demo_segmented, hd demo_tail]" "tl (tl demo_tail)" plain_libs
      "[(''name'', JStr ''demo'')]" "{''yes''}" 10 "JStr ''A''"]
  by (simp add: demo_defs demo_eval)

subsection \<open>The exceptions of get_top_users\<close>

text \<open>
  C10, as amended. \<^verbatim>\<open>get_top_users\<close> has no exception of its own; it fails with the
  exceptions of the dictionary and of the iteration, and then returns nothing.
  \<^item> Let the first loop pass over the messages, and let every \<^verbatim>\<open>reply_to_message_id\<close>
    there is be one that can be a key. If a message has no \<^verbatim>\<open>from\<close> and a
    \<^verbatim>\<open>reply_to_message_id\<close> that is true as a condition (not 0, not empty) and
    stands in the index with \<^verbatim>\<open>True\<close>, the call raises \<^verbatim>\<open>KeyError('from')\<close>.
  \<^item> Let the first loop pass over the messages before some message. If that message is
    a dictionary without \<^verbatim>\<open>text\<close>, the call raises \<^verbatim>\<open>KeyError('text')\<close>; if its
    text is a number, a boolean or \<^verbatim>\<open>None\<close>, the call raises TypeError.
  \<^item> A text that is a JSON object is not rejected: the call does what it does on the
    export in which that text is the string of the keys of the object, one after the
    other.
\<close>

theorem get_top_users_failures:
  assumes chat: "py_getitem (chat_data self) ''messages'' = Inr (JList msgs)"
  shows "(\<forall>idx msgs' m r.
            index_loop L msgs Map.empty = (Inr idx, msgs') \<longrightarrow> list_all replyable msgs \<longrightarrow>
            m \<in> set msgs \<longrightarrow> py_getitem m ''from'' = Inl (KeyError ''from'') \<longrightarrow>
            py_getitem m ''reply_to_message_id'' = Inr r \<longrightarrow> py_truthy r \<longrightarrow>
            idx (norm_key r) = Some True \<longrightarrow>
            fst (get_top_users L self k) = Inl (KeyError ''from''))
       \<and> (\<forall>pre m post idx. msgs = pre @ m # post \<longrightarrow>
             fst (index_loop L pre Map.empty) = Inr idx \<longrightarrow>
             py_getitem m ''text'' = Inl (KeyError ''text'') \<longrightarrow>
             fst (get_top_users L self k) = Inl (KeyError ''text''))
       \<and> (\<forall>pre m post idx v. msgs = pre @ m # post \<longrightarrow>
             fst (index_loop L pre Map.empty) = Inr idx \<longrightarrow>
             py_getitem m ''text'' = Inr v \<longrightarrow> py_iter v = Inl TypeError \<longrightarrow>
             fst (get_top_users L self k) = Inl TypeError)
       \<and> (\<forall>pre mk post tkvs self'. msgs = pre @ JObj mk # post \<longrightarrow>
             map_of mk ''text'' = Some (JObj tkvs) \<longrightarrow>
             py_getitem (chat_data self') ''messages''
               = Inr (JList (pre @ JObj (AList.update ''text''
                                          (JStr (concat (map fst tkvs))) mk) # post)) \<longrightarrow>
             fst (get_top_users L self k) = fst (get_top_users L self' k))"
proof (intro conjI allI impI)
  fix idx msgs' m r
  assume l: "index_loop L msgs Map.empty = (Inr idx, msgs')"
    and rp: "list_all replyable msgs" and m: "m \<in> set msgs"
    and fr: "py_getitem m ''from'' = Inl (KeyError ''from'')"
    and re: "py_getitem m ''reply_to_message_id'' = Inr r" and tr: "py_truthy r"
    and t: "idx (norm_key r) = Some True"
  let ?f = "\<lambda>m. snd (rebuild_text m)"
  from index_loop_msgs [OF l] have ms: "msgs' = map ?f msgs" .
  from rp m have "replyable m" by (simp add: list_all_iff)
  with re have h: "py_hashable r"
    by (cases m) (auto simp: replyable_def split: option.splits)
  have fr': "py_getitem (?f m) ''from'' = Inl (KeyError ''from'')"
    and re': "py_getitem (?f m) ''reply_to_message_id'' = Inr r"
    using fr re by (simp_all add: rebuild_text_getitem)
  from rp ms have rp': "list_all replyable msgs'"
    by (auto simp: list_all_iff rebuild_text_replyable)
  from m ms have m': "?f m \<in> set msgs'" by simp
  have "vote_loop msgs' idx [] = Inl (KeyError ''from'')"
    using vote_loop_missing_from [of "?f m" r msgs' idx "[]"] fr' re' tr h rp' m' t by simp
  with chat l show "fst (get_top_users L self k) = Inl (KeyError ''from'')"
    by (simp add: get_top_users_fst)
next
  fix pre m post idx
  assume "msgs = pre @ m # post" "fst (index_loop L pre Map.empty) = Inr idx"
    "py_getitem m ''text'' = Inl (KeyError ''text'')"
  with chat index_loop_fail [of L pre Map.empty idx m "KeyError ''text''" post]
  show "fst (get_top_users L self k) = Inl (KeyError ''text'')"
    by (simp add: get_top_users_fst index_step_no_text)
next
  fix pre m post idx v
  assume "msgs = pre @ m # post" "fst (index_loop L pre Map.empty) = Inr idx"
    "py_getitem m ''text'' = Inr v" "py_iter v = Inl TypeError"
  with chat index_loop_fail [of L pre Map.empty idx m TypeError post]
  show "fst (get_top_users L self k) = Inl TypeError"
    by (simp add: get_top_users_fst index_step_bad_text)
next
  fix pre mk post tkvs and self' :: chat_statistics
  assume ms: "msgs = pre @ JObj mk # post" and tx: "map_of mk ''text'' = Some (JObj tkvs)"
    and chat': "py_getitem (chat_data self') ''messages''
               = Inr (JList (pre @ JObj (AList.update ''text''
                                          (JStr (concat (map fst tkvs))) mk) # post))"
  let ?as = "pre @ JObj mk # post"
  let ?bs = "pre @ JObj (AList.update ''text'' (JStr (concat (map fst tkvs))) mk) # post"
  from index_loop_obj_text [OF tx, of L pre post Map.empty] have
    f: "fst (index_loop L ?bs Map.empty) = fst (index_loop L ?as Map.empty)"
    and s: "\<And>idx. fst (index_loop L ?as Map.empty) = Inr idx \<Longrightarrow>
              snd (index_loop L ?bs Map.empty) = snd (index_loop L ?as Map.empty)"
    by simp_all
  from chat chat' ms show "fst (get_top_users L self k) = fst (get_top_users L self' k)"
    by (cases "fst (index_loop L ?as Map.empty)") (simp_all add: get_top_users_fst f s)
qed

theorem get_top_users_failures_witness:
  "fst (get_top_users plain_libs
     \<lparr>chat_data = JObj [(''messages'', JList
        [JObj [(''id'', JInt 1), (''text'', JStr ''Is this true?''), (''from'', JStr ''A'')],
         JObj [(''id'', JInt 2), (''text'', JStr ''yes''), (''reply_to_message_id'', JInt 1)]])],
      stop_words = {}\<rparr> 10) = Inl (KeyError ''from'')
   \<and> fst (get_top_users plain_libs
     \<lparr>chat_data = JObj [(''messages'', JList
        [JObj [(''id'', JInt 1), (''text'', JStr ''Is this true?''), (''from'', JStr ''A'')],
         JObj [(''id'', JInt 2), (''from'', JStr ''B'')]])],
      stop_words = {}\<rparr> 10) = Inl (KeyError ''text'')
   \<and> fst (get_top_users plain_libs
     \<lparr>chat_data = JObj [(''messages'', JList
        [JObj [(''id'', JInt 1), (''text'', JStr ''Is this true?''), (''from'', JStr ''A'')],
         JObj [(''id'', JInt 2), (''text'', JInt 7), (''from'', JStr ''B'')]])],
      stop_words = {}\<rparr> 10) = Inl TypeError
   \<and> fst (get_top_users plain_libs
     \<lparr>chat_data = JObj [(''messages'', JList
        [JObj [(''id'', JInt 1), (''text'', JObj [(''why'', JInt 0), (''?'', JNull)]),
               (''from'', JStr ''A'')],
         JObj [(''id'', JInt 2), (''text'', JStr ''yes''), (''from'', JStr ''B''),
               (''reply_to_message_id'', JInt 1)]])],
      stop_words = {}\<rparr> 10)
     = fst (get_top_users plain_libs
     \<lparr>chat_data = JObj [(''messages'', JList
        [JObj [(''id'', JInt 1), (''text'', JStr ''why?''), (''from'', JStr ''A'')],
         JObj [(''id'', JInt 2), (''text'', JStr ''yes''), (''from'', JStr ''B''),
               (''reply_to_message_id'', JInt 1)]])],
      stop_words = {}\<rparr> 10)
   \<and> fst (get_top_users plain_libs
     \<lparr>chat_data = JObj [(''messages'', JList
        [JObj [(''id'', JInt 1), (''text'', JStr ''why?''), (''from'', JStr ''A'')],
         JObj [(''id'', JInt 2), (''text'', JStr ''yes''), (''from'', JStr ''B''),
               (''reply_to_message_id'', JInt 1)]])],
      stop_words = {}\<rparr> 10) = Inr [(JStr ''B'', 1)]"
  using
    get_top_users_failures [of
      "\<lparr>chat_data = JObj [(''messages'', JList
        [JObj [(''id'', JInt 1), (''text'', JStr ''Is this true?''), (''from'', JStr ''A'')],
         JObj [(''id'', JInt 2), (''text'', JStr ''yes''), (''reply_to_message_id'', JInt 1)]])],
      stop_words = {}\<rparr>" _ plain_libs 10]
    get_top_users_failures [of
      "\<lparr>chat_data = JObj [(''messages'', JList
        [JObj [(''id'', JInt 1), (''text'', JStr ''Is this true?''), (''from'', JStr ''A'')],
         JObj [(''id'', JInt 2), (''from'', JStr ''B'')]])],
      stop_words = {}\<rparr>" _ plain_libs 10]
    get_top_users_failures [of
      "\<lparr>chat_data = JObj [(''messages'', JList
        [JObj [(''id'', JInt 1), (''text'', JStr ''Is this true?''), (''from'', JStr ''A'')],
         JObj [(''id'', JInt 2), (''text'', JInt 7), (''from'', JStr ''B'')]])],
      stop_words = {}\<rparr>" _ plain_libs 10]
    get_top_users_failures [of
      "\<lparr>chat_data = JObj [(''messages'', JList
        [JObj [(''id'', JInt 1), (''text'', JObj [(''why'', JInt 0), (''?'', JNull)]),
               (''from'', JStr ''A'')],
         JObj [(''id'', JInt 2), (''text'', JStr ''yes''), (''from'', JStr ''B''),
               (''reply_to_message_id'', JInt 1)]])],
      stop_words = {}\<rparr>" _ plain_libs 10]
  by (simp add: demo_eval)

text \<open>C10 as stated fails. A text that is a JSON object is no shape of the data model,
  and the call returns all the same: the keys of the object are its text. A reply without
  \<^verbatim>\<open>from\<close> to a question ends in the \<^verbatim>\<open>KeyError\<close> of the dictionary. A reply
  without \<^verbatim>\<open>from\<close> to a question whose id is 0 is passed over, and the call returns
  the empty mapping.\<close>

theorem get_top_users_error_counterexample:
  "fst (get_top_users plain_libs
     \<lparr>chat_data = JObj [(''messages'', JList
        [JObj [(''id'', JInt 1), (''text'', JObj [(''why?'', JInt 0)]), (''from'', JStr ''A'')],
         JObj [(''id'', JInt 2), (''text'', JStr ''yes''), (''from'', JStr ''B''),
               (''reply_to_message_id'', JInt 1)]])],
      stop_words = {}\<rparr> 10) = Inr [(JStr ''B'', 1)]
   \<and> fst (get_top_users plain_libs
     \<lparr>chat_data = JObj [(''messages'', JList
        [JObj [(''id'', JInt 1), (''text'', JStr ''Is this true?''), (''from'', JStr ''A'')],
         JObj [(''id'', JInt 2), (''text'', JStr ''yes''), (''reply_to_message_id'', JInt 1)]])],
      stop_words = {}\<rparr> 10) = Inl (KeyError ''from'')
   \<and> fst (get_top_users plain_libs
     \<lparr>chat_data = JObj [(''messages'', JList
        [JObj [(''id'', JInt 0), (''text'', JStr ''Is this true?''), (''from'', JStr ''A'')],
         JObj [(''id'', JInt 2), (''text'', JStr ''yes''), (''reply_to_message_id'', JInt 0)]])],
      stop_words = {}\<rparr> 10) = Inr []"
  by (simp add: demo_eval)

section \<open>generate_word_cloud\<close>

lemma text_loop_char:
  "list_all has_text msgs \<Longrightarrow>
   text_loop L stops msgs acc = Inr (acc @ concat (map (cloud_words L stops) msgs))"
proof (induction msgs arbitrary: acc)
  case Nil
  then show ?case by simp
next
  case (Cons m ms)
  then obtain v where v: "py_getitem m ''text'' = Inr v"
    by (auto simp: has_text_def split: sum.splits)
  with Cons show ?case
    by (cases v) (simp_all add: cloud_words_def)
qed

lemma text_loop_skip:
  assumes "py_getitem m ''text'' = Inr (JList subs)"
  shows "text_loop L stops (pre @ m # post) acc = text_loop L stops (pre @ post) acc"
proof (induction pre arbitrary: acc)
  case Nil
  from assms show ?case by simp
next
  case (Cons p ps)
  show ?case
  proof (cases "py_getitem p ''text''")
    case (Inl e)
    then show ?thesis by simp
  next
    case (Inr v)
    with Cons show ?thesis by (cases v) simp_all
  qed
qed

lemma msg_words_no_stop_word:
  "msg_words L stops s = '' '' @ join_sp ts \<and> set ts \<inter> stops = {}"
  if "ts = filter (\<lambda>item. item \<notin> stops) (hazm_word_tokenize L s)"
  using that by (auto simp: msg_words_def)

text \<open>
  C3. A message whose text is a sequence of segments adds nothing to the text of the word
  cloud: \<^verbatim>\<open>generate_word_cloud\<close> does on the export what it does on the export without
  that message. In an export of message records the first loop of \<^verbatim>\<open>get_top_users\<close>
  still stores \<^verbatim>\<open>True\<close> under the id of such a message when a sentence of its rebuilt
  text contains a question mark.
\<close>

theorem segmented_message_cloud_and_index:
  assumes seg: "py_getitem m ''text'' = Inr (JList subs)"
  shows "generate_word_cloud L
           \<lparr>chat_data = JObj (AList.update ''messages'' (JList (pre @ m # post)) kvs),
            stop_words = stops\<rparr> out w h f
         = generate_word_cloud L
           \<lparr>chat_data = JObj (AList.update ''messages'' (JList (pre @ post)) kvs),
            stop_words = stops\<rparr> out w h f
       \<and> (list_all is_message (pre @ m # post) \<longrightarrow> py_getitem m ''id'' = Inr i \<longrightarrow>
            rebuild_msg (JList subs) = Inr t \<longrightarrow>
            (\<exists>s\<in>set (hazm_sent_tokenize L t). has_qmark s) \<longrightarrow>
            (\<exists>idx msgs'. index_loop L (pre @ m # post) Map.empty = (Inr idx, msgs')
               \<and> idx (norm_key i) = Some True))"
proof (intro conjI impI)
  show "generate_word_cloud L
           \<lparr>chat_data = JObj (AList.update ''messages'' (JList (pre @ m # post)) kvs),
            stop_words = stops\<rparr> out w h f
         = generate_word_cloud L
           \<lparr>chat_data = JObj (AList.update ''messages'' (JList (pre @ post)) kvs),
            stop_words = stops\<rparr> out w h f"
    by (simp add: generate_word_cloud_def update_conv' text_loop_skip [OF seg])
next
  assume wf: "list_all is_message (pre @ m # post)" and i: "py_getitem m ''id'' = Inr i"
    and t: "rebuild_msg (JList subs) = Inr t"
    and q: "\<exists>s\<in>set (hazm_sent_tokenize L t). has_qmark s"
  from wf have "list_all indexable (pre @ m # post)"
    by (auto simp: list_all_iff is_message_indexable)
  from index_loop_ok [OF this] obtain idx msgs' where
    l: "index_loop L (pre @ m # post) Map.empty = (Inr idx, msgs')"
    by (metis prod.collapse)
  from seg t have "fst (rebuild_text m) = Inr t"
    by (cases m) (auto split: option.splits)
  with q have "is_question_msg L m"
    by (simp add: is_question_msg_iff)
  with i index_loop_index [OF l, of "norm_key i"] have "idx (norm_key i) = Some True"
    by auto
  with l show "\<exists>idx msgs'. index_loop L (pre @ m # post) Map.empty = (Inr idx, msgs')
            \<and> idx (norm_key i) = Some True" by blast
qed

theorem segmented_message_cloud_and_index_witness:
  "py_getitem demo_segmented ''text''
     = Inr (JList [JObj [(''type'', JStr ''bold''), (''text'', JStr ''weather'')], JStr ''?''])
   \<and> (\<exists>rc. generate_word_cloud plain_libs demo_chat ''out'' 800 600 60 = Inr rc
         \<and> generate_word_cloud plain_libs
             \<lparr>chat_data = JObj [(''name'', JStr ''demo''),
                                (''messages'', JList (demo_head @ demo_tail))],
              stop_words = {''yes''}\<rparr> ''out'' 800 600 60 = Inr rc
         \<and> rc_text rc = '' Is this true?  rain hm sun'')
   \<and> (\<exists>idx msgs'. index_loop plain_libs demo_messages Map.empty = (Inr idx, msgs')
         \<and> idx (JInt 3) = Some True)"
  using segmented_message_cloud_and_index [of demo_segmented
      "[JObj [(''type'', JStr ''bold''), (''text'', JStr ''weather'')], JStr ''?'']"
      plain_libs demo_head demo_tail "[(''name'', JStr ''demo'')]" "{''yes''}"
      "''out''" 800 600 60 "JInt 3" "''weather?''"]
    demo_is_message
  by (simp add: demo_defs demo_eval)

text \<open>
  C4. A call of \<^verbatim>\<open>get_top_users\<close> that returns leaves the export with the same
  messages in the same order, each with every field but \<^verbatim>\<open>text\<close> as it was, a string
  text as it was, and any other text replaced by the string \<^verbatim>\<open>rebuild_msg\<close> returns
  for it; nothing else of the object changes. Before the call such a message adds nothing
  to the text of the word cloud, after the call it adds the words of its rebuilt text:
  \<^verbatim>\<open>generate_word_cloud\<close> renders the one text before and the other after.
\<close>

theorem get_top_users_rewrites_text:
  assumes run: "get_top_users L self k = (Inr res, self')"
    and chat: "chat_data self = JObj kvs" "map_of kvs ''messages'' = Some (JList msgs)"
  shows "\<exists>msgs'.
     self' = self\<lparr>chat_data := JObj (AList.update ''messages'' (JList msgs') kvs)\<rparr>
     \<and> length msgs' = length msgs
     \<and> (\<forall>n<length msgs. \<exists>v t.
           py_getitem (msgs ! n) ''text'' = Inr v
           \<and> (case v of JStr s \<Rightarrow> t = s | _ \<Rightarrow> rebuild_msg v = Inr t)
           \<and> py_getitem (msgs' ! n) ''text'' = Inr (JStr t)
           \<and> (\<forall>key. key \<noteq> ''text'' \<longrightarrow>
                 py_getitem (msgs' ! n) key = py_getitem (msgs ! n) key)
           \<and> cloud_words L (stop_words self) (msgs ! n)
               = (case v of JStr s \<Rightarrow> msg_words L (stop_words self) s | _ \<Rightarrow> [])
           \<and> cloud_words L (stop_words self) (msgs' ! n) = msg_words L (stop_words self) t)
     \<and> (\<exists>rc. generate_word_cloud L self out w h f = Inr rc
           \<and> rc_text rc = display_text L (concat (map (cloud_words L (stop_words self)) msgs)))
     \<and> (\<exists>rc. generate_word_cloud L self' out w h f = Inr rc
           \<and> rc_text rc
               = display_text L (concat (map (cloud_words L (stop_words self)) msgs')))"
proof -
  let ?msgs' = "map (\<lambda>m. snd (rebuild_text m)) msgs"
  from get_top_users_state [OF run chat] obtain idx where
    l: "index_loop L msgs Map.empty = (Inr idx, ?msgs')"
    and s: "self' = self\<lparr>chat_data := JObj (AList.update ''messages'' (JList ?msgs') kvs)\<rparr>"
    by blast
  have rt: "\<exists>t. fst (rebuild_text m) = Inr t" if "m \<in> set msgs" for m
    using index_loop_texts [OF l that] .
  have each: "\<exists>v t.
           py_getitem (msgs ! n) ''text'' = Inr v
           \<and> (case v of JStr s \<Rightarrow> t = s | _ \<Rightarrow> rebuild_msg v = Inr t)
           \<and> py_getitem (?msgs' ! n) ''text'' = Inr (JStr t)
           \<and> (\<forall>key. key \<noteq> ''text'' \<longrightarrow>
                 py_getitem (?msgs' ! n) key = py_getitem (msgs ! n) key)
           \<and> cloud_words L (stop_words self) (msgs ! n)
               = (case v of JStr s \<Rightarrow> msg_words L (stop_words self) s | _ \<Rightarrow> [])
           \<and> cloud_words L (stop_words self) (?msgs' ! n) = msg_words L (stop_words self) t"
    if n: "n < length msgs" for n
  proof -
    from n rt obtain t where t: "fst (rebuild_text (msgs ! n)) = Inr t" by fastforce
    from rebuild_text_effect [OF t] obtain v where
      v: "py_getitem (msgs ! n) ''text'' = Inr v"
      and c: "case v of JStr s \<Rightarrow> t = s | _ \<Rightarrow> rebuild_msg v = Inr t"
      and a: "py_getitem (snd (rebuild_text (msgs ! n))) ''text'' = Inr (JStr t)"
      by blast
    have "cloud_words L (stop_words self) (msgs ! n)
               = (case v of JStr s \<Rightarrow> msg_words L (stop_words self) s | _ \<Rightarrow> [])"
      using v by (cases v) (simp_all add: cloud_words_def)
    with n v c a cloud_words_rebuilt [OF t, of L "stop_words self"] show ?thesis
      by (auto simp: rebuild_text_getitem)
  qed
  have before: "list_all has_text msgs" and after: "list_all has_text ?msgs'"
    using rt has_text_rebuilt by (auto simp: list_all_iff)
  have "\<exists>rc. generate_word_cloud L self out w h f = Inr rc
           \<and> rc_text rc = display_text L (concat (map (cloud_words L (stop_words self)) msgs))"
    using chat by (simp add: generate_word_cloud_def text_loop_char [OF before])
  moreover have "\<exists>rc. generate_word_cloud L self' out w h f = Inr rc
           \<and> rc_text rc
               = display_text L (concat (map (cloud_words L (stop_words self)) ?msgs'))"
    by (simp add: s generate_word_cloud_def update_conv' text_loop_char [OF after])
  ultimately show ?thesis
    using s each by (intro exI [of _ ?msgs']) simp
qed

theorem get_top_users_rewrites_text_witness:
  "fst (get_top_users plain_libs demo_chat 10) = Inr [(JStr ''B'', 2), (JStr ''A'', 1)]
   \<and> py_getitem demo_segmented ''text''
       = Inr (JList [JObj [(''type'', JStr ''bold''), (''text'', JStr ''weather'')], JStr ''?''])
   \<and> snd (get_top_users plain_libs demo_chat 10)
       = demo_chat\<lparr>chat_data := JObj [(''name'', JStr ''demo''),
           (''messages'', JList (demo_head
              @ JObj [(''id'', JInt 3), (''from'', JStr ''C''), (''text'', JStr ''weather?'')]
              # demo_tail))]\<rparr>
   \<and> (\<exists>rc. generate_word_cloud plain_libs demo_chat ''out'' 800 600 60 = Inr rc
         \<and> rc_text rc = '' Is this true?  rain hm sun'')
   \<and> (\<exists>rc. generate_word_cloud plain_libs (snd (get_top_users plain_libs demo_chat 10))
              ''out'' 800 600 60 = Inr rc
         \<and> rc_text rc = '' Is this true?  weather? rain hm sun'')"
  using get_top_users_rewrites_text [of plain_libs demo_chat 10
      "[(JStr ''B'', 2), (JStr ''A'', 1)]" "snd (get_top_users plain_libs demo_chat 10)"
      "[(''name'', JStr ''demo''), (''messages'', JList demo_messages)]" demo_messages
      "''out''" 800 600 60]
  by (simp add: demo_defs demo_eval)

text \<open>
  C5. Whatever width, height and maximal font size the caller gives, a call of
  \<^verbatim>\<open>generate_word_cloud\<close> that reaches the renderer calls it with width 450, height 250
  and maximal font size 60, and with the three values changed the call does the same. It
  reaches the renderer whenever every message has a \<^verbatim>\<open>text\<close>.
\<close>

theorem word_cloud_fixed_options:
  "(\<forall>rc. generate_word_cloud L self out w h f = Inr rc \<longrightarrow>
       rc_width rc = 450 \<and> rc_height rc = 250 \<and> rc_max_font_size rc = 60)
   \<and> generate_word_cloud L self out w h f = generate_word_cloud L self out w' h' f'
   \<and> (\<forall>msgs. py_getitem (chat_data self) ''messages'' = Inr (JList msgs) \<longrightarrow>
         list_all has_text msgs \<longrightarrow> (\<exists>rc. generate_word_cloud L self out w h f = Inr rc))"
proof (intro conjI allI impI)
  fix rc assume "generate_word_cloud L self out w h f = Inr rc"
  then show "rc_width rc = 450" "rc_height rc = 250" "rc_max_font_size rc = 60"
    by (auto simp: generate_word_cloud_def split: sum.splits)
next
  show "generate_word_cloud L self out w h f = generate_word_cloud L self out w' h' f'"
    by (simp add: generate_word_cloud_def)
next
  fix msgs
  assume "py_getitem (chat_data self) ''messages'' = Inr (JList msgs)" "list_all has_text msgs"
  then show "\<exists>rc. generate_word_cloud L self out w h f = Inr rc"
    by (simp add: generate_word_cloud_def text_loop_char)
qed

theorem word_cloud_fixed_options_witness:
  "generate_word_cloud plain_libs demo_chat ''out'' 1920 1080 200 =
     Inr \<lparr>rc_text = '' Is this true?  rain hm sun'',
          rc_font_path = (''data'', ''BHoma.ttf''),
          rc_background_color = ''white'',
          rc_max_font_size = 60, rc_width = 450, rc_height = 250,
          rc_to_file = (''out'', ''wordcloud.png'')\<rparr>"
  using word_cloud_fixed_options [of plain_libs demo_chat "''out''" 1920 1080 200 800 600 60]
  by (simp add: demo_defs demo_eval)

text \<open>
  C2 does not hold of the code. The stop words are normalized when they are loaded, the
  words of a message are compared with them as they are written, and the text is
  normalized only after the comparison. With a normalizer that unifies the two spellings
  of kaf, as hazm's does, and the stop word \<^verbatim>\<open>ke\<close> in the file: a message that writes
  \<^verbatim>\<open>ke\<close> with the Arabic kaf passes the filter, and the text handed to the renderer is
  the stop word itself.
\<close>

theorem word_cloud_keeps_stop_word:
  "stop_words kaf_chat = {persian_ke}
   \<and> normalizer_normalize kaf_libs arabic_ke = persian_ke
   \<and> hazm_word_tokenize kaf_libs arabic_ke = [arabic_ke]
   \<and> (\<exists>rc. generate_word_cloud kaf_libs kaf_chat ''out'' 800 600 60 = Inr rc
         \<and> rc_text rc = '' '' @ persian_ke)"
  by (simp add: kaf_chat_def kaf_libs_def init_def arabic_ke_def persian_ke_def demo_eval)

end
